theory Spec2Isabelle
  imports Main "HOL-Library.Char_ord" "HOL-Library.List_Lexorder"
begin

section \<open>Calendar dates and their ISO rendering\<close>

text \<open>
  \<^verbatim>\<open>app.py\<close> works on \<^verbatim>\<open>datetime.date\<close> values and on their \<^verbatim>\<open>str\<close> rendering
  \<^verbatim>\<open>YYYY-MM-DD\<close>. A date is a year, a month and a day of the proleptic Gregorian
  calendar, between 0001-01-01 and 9999-12-31; arithmetic that leaves this range raises
  \<^verbatim>\<open>OverflowError\<close>.
\<close>

datatype error = OverflowError | HTTPError nat | ConnectionError

datatype date = Date (year: nat) (month: nat) (day: nat)

definition is_leap :: "nat \<Rightarrow> bool" where
  "is_leap y \<longleftrightarrow> y mod 4 = 0 \<and> (y mod 100 \<noteq> 0 \<or> y mod 400 = 0)"

definition days_in_month :: "nat \<Rightarrow> nat \<Rightarrow> nat" where
  "days_in_month y m =
     (if m = 2 then (if is_leap y then 29 else 28)
      else if m = 4 \<or> m = 6 \<or> m = 9 \<or> m = 11 then 30 else 31)"

definition valid_date :: "date \<Rightarrow> bool" where
  "valid_date d \<longleftrightarrow>
     1 \<le> year d \<and> year d \<le> 9999 \<and> 1 \<le> month d \<and> month d \<le> 12 \<and>
     1 \<le> day d \<and> day d \<le> days_in_month (year d) (month d)"

text \<open>\<^verbatim>\<open>day - timedelta(days=1)\<close>: the previous calendar day, or \<^verbatim>\<open>OverflowError\<close> at
  \<^verbatim>\<open>date.min\<close>.\<close>

fun prev_day :: "date \<Rightarrow> error + date" where
  "prev_day (Date y m d) =
     (if 1 < d then Inr (Date y m (d - 1))
      else if 1 < m then Inr (Date y (m - 1) (days_in_month y (m - 1)))
      else if 1 < y then Inr (Date (y - 1) 12 31)
      else Inl OverflowError)"

text \<open>\<^verbatim>\<open>day - timedelta(days=k)\<close>: \<open>k\<close> calendar days back, or \<^verbatim>\<open>OverflowError\<close> when
  that is before \<^verbatim>\<open>date.min\<close>.\<close>

fun sub_days :: "nat \<Rightarrow> date \<Rightarrow> error + date" where
  "sub_days 0 d = Inr d"
| "sub_days (Suc k) d = (case prev_day d of Inl e \<Rightarrow> Inl e | Inr d' \<Rightarrow> sub_days k d')"

text \<open>\<^verbatim>\<open>str(n)\<close> of a non-negative integer, and the zero-filled \<^verbatim>\<open>%0wd\<close>.\<close>

definition digit_char :: "nat \<Rightarrow> char" where
  "digit_char n = char_of (48 + n)"

fun dec :: "nat \<Rightarrow> string" where
  "dec n = (if n < 10 then [digit_char n] else dec (n div 10) @ [digit_char (n mod 10)])"

declare dec.simps [simp del]

definition zfill :: "nat \<Rightarrow> string \<Rightarrow> string" where
  "zfill w s = replicate (w - length s) (CHR ''0'') @ s"

text \<open>\<^verbatim>\<open>str(day)\<close>, that is \<^verbatim>\<open>day.isoformat()\<close>: \<^verbatim>\<open>"%04d-%02d-%02d"\<close>.\<close>

definition date_str :: "date \<Rightarrow> string" where
  "date_str d =
     zfill 4 (dec (year d)) @ ''-'' @ zfill 2 (dec (month d)) @ ''-'' @ zfill 2 (dec (day d))"

definition date_num :: "date \<Rightarrow> nat" where
  "date_num d = (year d * 100 + month d) * 100 + day d"

text \<open>Calendar order: \<open>date_le a b\<close> when \<open>a\<close> is on or before \<open>b\<close>.\<close>

definition date_le :: "date \<Rightarrow> date \<Rightarrow> bool" where
  "date_le a b \<longleftrightarrow>
     year a < year b \<or>
     (year a = year b \<and> (month a < month b \<or> (month a = month b \<and> day a \<le> day b)))"

section \<open>Streak and weekly increase\<close>

text \<open>
  \<^verbatim>\<open>compute_streak(dates)\<close>: \<^verbatim>\<open>today\<close> is read from the clock and is a parameter here.
  The loop walks back one day at a time while \<^verbatim>\<open>str(day) in dates\<close>.
\<close>

function streak_loop :: "string list \<Rightarrow> date \<Rightarrow> nat \<Rightarrow> error + nat" where
  "streak_loop dates dy streak =
     (if date_str dy \<in> set dates
      then (case prev_day dy of
              Inl e \<Rightarrow> Inl e
            | Inr dy' \<Rightarrow> streak_loop dates dy' (streak + 1))
      else Inr streak)"
  by pat_completeness auto
termination
proof (relation "measure (\<lambda>(dates, dy, streak). date_num dy)")
  show "wf (measure (\<lambda>(dates, dy, streak). date_num dy))" by simp
next
  fix dates :: "string list" and dy dy' :: date and streak :: nat
  assume "prev_day dy = Inr dy'"
  then have "date_num dy' < date_num dy"
    by (cases dy) (auto simp: date_num_def days_in_month_def split: if_splits)
  then show "((dates, dy', streak + 1), (dates, dy, streak))
      \<in> measure (\<lambda>(dates, dy, streak). date_num dy)"
    by simp
qed

declare streak_loop.simps [simp del]

definition compute_streak :: "string list \<Rightarrow> date \<Rightarrow> error + nat" where
  "compute_streak dates today = streak_loop dates today 0"

text \<open>
  \<^verbatim>\<open>get_weekly_streak_increase(dates)\<close>: the entries that compare, as strings,
  greater than or equal to \<^verbatim>\<open>str(today - timedelta(days=7))\<close>.
\<close>

definition get_weekly_streak_increase :: "string list \<Rightarrow> date \<Rightarrow> error + nat" where
  "get_weekly_streak_increase dates today =
     (case sub_days 7 today of
        Inl e \<Rightarrow> Inl e
      | Inr one_week_ago \<Rightarrow> Inr (length (filter (\<lambda>d. d \<ge> date_str one_week_ago) dates)))"

section \<open>Auxiliary notions for the statements\<close>

text \<open>The last \<open>w\<close> decimal digits of \<open>n\<close>, most significant first.\<close>

fun digs :: "nat \<Rightarrow> nat \<Rightarrow> string" where
  "digs 0 n = []"
| "digs (Suc w) n = digs w (n div 10) @ [digit_char (n mod 10)]"


text \<open>Dates whose fields fit the widths of \<^verbatim>\<open>%04d-%02d-%02d\<close>; every valid date is one.\<close>

definition small_date :: "date \<Rightarrow> bool" where
  "small_date d \<longleftrightarrow> year d < 10000 \<and> month d < 100 \<and> day d < 100"


text \<open>
  \<open>streak_run dates today n\<close>: each of the \<open>n\<close> calendar days ending at \<open>today\<close>
  (inclusive) has its date string in \<open>dates\<close>, and the day \<open>n\<close> days before \<open>today\<close>
  exists and is the first one missing.
\<close>

definition streak_run :: "string list \<Rightarrow> date \<Rightarrow> nat \<Rightarrow> bool" where
  "streak_run dates today n \<longleftrightarrow>
     (\<forall>i<n. case sub_days i today of Inl e \<Rightarrow> False | Inr d \<Rightarrow> date_str d \<in> set dates) \<and>
     (case sub_days n today of Inl e \<Rightarrow> False | Inr d \<Rightarrow> date_str d \<notin> set dates)"


text \<open>The members of \<open>dates\<close> that render a day on or before \<open>dy\<close>.\<close>

definition seen_upto :: "string list \<Rightarrow> date \<Rightarrow> string set" where
  "seen_upto dates dy = {s \<in> set dates. \<exists>d. small_date d \<and> date_num d \<le> date_num dy \<and> s = date_str d}"

section \<open>The upstream API\<close>

text \<open>
  The hosting API is outside the program. A call of \<^verbatim>\<open>requests.get\<close> is a function of the
  request and of the state of the world \<open>'w\<close>; it either raises (a network-level failure)
  or returns a response with a status code and a body. Bodies are taken to be JSON arrays
  of the objects of their endpoint: repositories with \<^verbatim>\<open>name\<close>, \<^verbatim>\<open>created_at\<close> and
  \<^verbatim>\<open>fork\<close>, commits with \<^verbatim>\<open>commit.author.date\<close>.
\<close>

datatype repo = Repo (name: string) (created_at: string) (fork: bool)

datatype commit = Commit (author_date: string)

datatype datetime = Datetime (date_of: date) (second_of_day: nat)

datatype pval = PStr string | PInt nat | PTime datetime

datatype request =
  Request (url: string) (headers: "(string \<times> string) list") (params: "(string \<times> pval) list")

datatype 'a response = Response (status_code: nat) (json: "'a list")

type_synonym ('a, 'w) http_get = "request \<Rightarrow> 'w \<Rightarrow> (error + 'a response) \<times> 'w"

definition repos_url :: "string \<Rightarrow> string" where
  "repos_url user = ''https://api.github.com/users/'' @ user @ ''/repos''"

definition commits_url :: "string \<Rightarrow> string \<Rightarrow> string" where
  "commits_url user repo_name = ''https://api.github.com/repos/'' @ user @ ''/'' @ repo_name @ ''/commits''"

text \<open>\<^verbatim>\<open>now - timedelta(days=k)\<close> on a \<^verbatim>\<open>datetime\<close>.\<close>

definition minus_days :: "datetime \<Rightarrow> nat \<Rightarrow> error + datetime" where
  "minus_days t k =
     (case sub_days k (date_of t) of
        Inl e \<Rightarrow> Inl e
      | Inr d \<Rightarrow> Inr (Datetime d (second_of_day t)))"

section \<open>Monthly commit counts\<close>

text \<open>
  \<^verbatim>\<open>monthly_counts[month_str] = monthly_counts.get(month_str, 0) + 1\<close> on a dictionary,
  which keeps its keys in the order of their first insertion.
\<close>

fun bump :: "(string \<times> nat) list \<Rightarrow> string \<Rightarrow> (string \<times> nat) list" where
  "bump [] k = [(k, 1)]"
| "bump ((k', n) # kvs) k = (if k' = k then (k', n + 1) # kvs else (k', n) # bump kvs k)"

text \<open>The loop over the repositories; \<^verbatim>\<open>commit_date[:7]\<close> is the month of a commit. A
  response other than 200 is skipped; an exception of \<^verbatim>\<open>requests.get\<close> leaves the loop.\<close>

fun monthly_loop ::
  "(commit, 'w) http_get \<Rightarrow> (string \<times> string) list \<Rightarrow> string \<Rightarrow> (string \<times> pval) list \<Rightarrow>
   repo list \<Rightarrow> (string \<times> nat) list \<Rightarrow> 'w \<Rightarrow> (error + (string \<times> nat) list) \<times> 'w" where
  "monthly_loop get hs username ps [] monthly_counts w = (Inr monthly_counts, w)"
| "monthly_loop get hs username ps (r # repos) monthly_counts w =
     (case get (Request (commits_url username (name r)) hs ps) w of
        (Inl e, w') \<Rightarrow> (Inl e, w')
      | (Inr commits_response, w') \<Rightarrow>
          if status_code commits_response = 200
          then monthly_loop get hs username ps repos
                 (fold (\<lambda>c counts. bump counts (take 7 (author_date c)))
                    (json commits_response) monthly_counts) w'
          else monthly_loop get hs username ps repos monthly_counts w')"

text \<open>
  The data frame: the \<^verbatim>\<open>Month\<close> column converted by \<^verbatim>\<open>pd.to_datetime\<close>, a parameter here
  (\<open>None\<close> where it raises), and the rows sorted by it.
\<close>

fun convert_months :: "(string \<Rightarrow> 'ts option) \<Rightarrow> (string \<times> nat) list \<Rightarrow> ('ts \<times> nat) list option" where
  "convert_months to_datetime [] = Some []"
| "convert_months to_datetime ((m, c) # items) =
     (case to_datetime m of
        None \<Rightarrow> None
      | Some t \<Rightarrow>
          (case convert_months to_datetime items of
             None \<Rightarrow> None
           | Some rows \<Rightarrow> Some ((t, c) # rows)))"

text \<open>
  \<^verbatim>\<open>get_github_monthly_commits(username, months)\<close>. \<open>secret\<close> is the value of
  \<^verbatim>\<open>GITHUB_TOKEN\<close> in \<^verbatim>\<open>st.secrets\<close>, if there is one; \<open>now\<close> is the clock. Every exception
  inside the \<^verbatim>\<open>try\<close> ends in \<^verbatim>\<open>return None\<close>.
\<close>

definition monthly_headers :: "string option \<Rightarrow> (string \<times> string) list" where
  "monthly_headers secret =
     (case secret of
        None \<Rightarrow> []
      | Some t \<Rightarrow> if t \<noteq> [] then [(''Authorization'', ''token '' @ t)] else [])"

definition get_github_monthly_commits ::
  "(repo, 'w) http_get \<Rightarrow> (commit, 'w) http_get \<Rightarrow> (string \<Rightarrow> 'ts::linorder option) \<Rightarrow>
   string option \<Rightarrow> datetime \<Rightarrow> string \<Rightarrow> nat \<Rightarrow> 'w \<Rightarrow> ('ts \<times> nat) list option \<times> 'w" where
  "get_github_monthly_commits get_repos get_commits to_datetime secret now username months w =
     (case get_repos (Request (repos_url username) (monthly_headers secret) []) w of
        (Inl e, w1) \<Rightarrow> (None, w1)
      | (Inr repos_response, w1) \<Rightarrow>
          if 400 \<le> status_code repos_response \<and> status_code repos_response < 600
          then (None, w1)
          else
            (case minus_days now (months * 30) of
               Inl e \<Rightarrow> (None, w1)
             | Inr start_date \<Rightarrow>
                 (case monthly_loop get_commits (monthly_headers secret) username
                         [(''since'', PTime start_date), (''until'', PTime now)]
                         (json repos_response) [] w1 of
                    (Inl e, w2) \<Rightarrow> (None, w2)
                  | (Inr monthly_counts, w2) \<Rightarrow>
                      if monthly_counts = [] then (None, w2)
                      else
                        (case convert_months to_datetime monthly_counts of
                           None \<Rightarrow> (None, w2)
                         | Some rows \<Rightarrow> (Some (sort_key fst rows), w2)))))"

section \<open>Repository counts\<close>

text \<open>
  \<^verbatim>\<open>get_repo_count(user, use_token)\<close>. The dictionary \<^verbatim>\<open>params\<close> is built in the loop but
  is not passed to \<^verbatim>\<open>requests.get\<close>, so every request is the same. The loop has no bound
  of its own: it ends at a response other than 200, at an empty page or at a page shorter
  than 100.
\<close>

definition count_headers :: "string option \<Rightarrow> bool \<Rightarrow> (string \<times> string) list" where
  "count_headers secret use_token =
     (''Accept'', ''application/vnd.github+json'') #
     (case secret of
        None \<Rightarrow> []
      | Some t \<Rightarrow> if use_token then [(''Authorization'', ''token '' @ t)] else [])"

partial_function (option) repo_pages ::
  "(repo, 'w) http_get \<Rightarrow> request \<Rightarrow> repo list \<Rightarrow> nat \<Rightarrow> 'w \<Rightarrow> ((error + repo list) \<times> 'w) option" where
  "repo_pages get rq repos page w =
     (case get rq w of
        (Inl e, w') \<Rightarrow> Some (Inl e, w')
      | (Inr resp, w') \<Rightarrow>
          if status_code resp \<noteq> 200 then Some (Inr repos, w')
          else if json resp = [] then Some (Inr repos, w')
          else if length (json resp) < 100 then Some (Inr (repos @ json resp), w')
          else repo_pages get rq (repos @ json resp) (page + 1) w')"

definition get_repo_count ::
  "(repo, 'w) http_get \<Rightarrow> string option \<Rightarrow> string \<Rightarrow> bool \<Rightarrow> 'w \<Rightarrow> ((error + nat) \<times> 'w) option" where
  "get_repo_count get secret user use_token w =
     (case repo_pages get (Request (repos_url user) (count_headers secret use_token) []) [] 1 w of
        None \<Rightarrow> None
      | Some (Inl e, w') \<Rightarrow> Some (Inl e, w')
      | Some (Inr repos, w') \<Rightarrow> Some (Inr (length (filter (\<lambda>r. \<not> fork r) repos)), w'))"

text \<open>\<^verbatim>\<open>s.startswith(p)\<close>.\<close>

definition startswith :: "string \<Rightarrow> string \<Rightarrow> bool" where
  "startswith s p \<longleftrightarrow> take (length p) s = p"

text \<open>
  \<^verbatim>\<open>get_repos_created_this_year(user)\<close>: one request, its query written into the URL;
  \<open>yr\<close> is \<^verbatim>\<open>datetime.now().year\<close>.
\<close>

definition year_headers :: "string option \<Rightarrow> (string \<times> string) list" where
  "year_headers secret =
     (case secret of None \<Rightarrow> [] | Some t \<Rightarrow> [(''Authorization'', ''token '' @ t)])"

definition get_repos_created_this_year ::
  "(repo, 'w) http_get \<Rightarrow> string option \<Rightarrow> nat \<Rightarrow> string \<Rightarrow> 'w \<Rightarrow> (error + nat) \<times> 'w" where
  "get_repos_created_this_year get secret yr user w =
     (case get (Request (repos_url user @ ''?type=owner&per_page=100'') (year_headers secret) []) w of
        (Inl e, w') \<Rightarrow> (Inl e, w')
      | (Inr resp, w') \<Rightarrow>
          if status_code resp \<noteq> 200 then (Inr 0, w')
          else (Inr (length (filter (\<lambda>r. startswith (created_at r) (dec yr)) (json resp))), w'))"

section \<open>Commit dates\<close>

text \<open>
  \<^verbatim>\<open>github_request(url, params)\<close>: \<^verbatim>\<open>raise_for_status\<close> raises on a status from 400 to 599.
  \<open>token\<close> is the module's \<^verbatim>\<open>GITHUB_TOKEN\<close>.
\<close>

definition request_headers :: "string option \<Rightarrow> (string \<times> string) list" where
  "request_headers token =
     (''Accept'', ''application/vnd.github+json'') #
     (case token of
        None \<Rightarrow> []
      | Some t \<Rightarrow> if t \<noteq> [] then [(''Authorization'', ''token '' @ t)] else [])"

definition github_request ::
  "('a, 'w) http_get \<Rightarrow> string option \<Rightarrow> string \<Rightarrow> (string \<times> pval) list \<Rightarrow> 'w \<Rightarrow>
   (error + 'a list) \<times> 'w" where
  "github_request get token u ps w =
     (case get (Request u (request_headers token) ps) w of
        (Inl e, w') \<Rightarrow> (Inl e, w')
      | (Inr response, w') \<Rightarrow>
          if 400 \<le> status_code response \<and> status_code response < 600
          then (Inl (HTTPError (status_code response)), w')
          else (Inr (json response), w'))"

text \<open>The loop of \<^verbatim>\<open>get_daily_commit_dates\<close>: a repository whose request raises is
  skipped (\<^verbatim>\<open>except Exception: continue\<close>).\<close>

fun daily_loop ::
  "(commit, 'w) http_get \<Rightarrow> string option \<Rightarrow> string \<Rightarrow> datetime \<Rightarrow> repo list \<Rightarrow> string set \<Rightarrow>
   'w \<Rightarrow> string set \<times> 'w" where
  "daily_loop get token user since [] dates w = (dates, w)"
| "daily_loop get token user since (r # repos) dates w =
     (case github_request get token (commits_url user (name r)) [(''since'', PTime since)] w of
        (Inl e, w') \<Rightarrow> daily_loop get token user since repos dates w'
      | (Inr commits, w') \<Rightarrow>
          daily_loop get token user since repos
            (fold (\<lambda>c ds. insert (take 10 (author_date c)) ds) commits dates) w')"

text \<open>\<^verbatim>\<open>get_daily_commit_dates(user, months)\<close>: the listing request and the date
  arithmetic are outside any \<^verbatim>\<open>try\<close>.\<close>

definition get_daily_commit_dates ::
  "(repo, 'w) http_get \<Rightarrow> (commit, 'w) http_get \<Rightarrow> string option \<Rightarrow> datetime \<Rightarrow> string \<Rightarrow> nat \<Rightarrow>
   'w \<Rightarrow> (error + string list) \<times> 'w" where
  "get_daily_commit_dates get_repos get_commits token now user months w =
     (case github_request get_repos token (repos_url user) [(''type'', PStr ''owner'')] w of
        (Inl e, w1) \<Rightarrow> (Inl e, w1)
      | (Inr repos, w1) \<Rightarrow>
          (case minus_days now (months * 30) of
             Inl e \<Rightarrow> (Inl e, w1)
           | Inr since \<Rightarrow>
               (case daily_loop get_commits token user since repos {} w1 of
                  (dates, w2) \<Rightarrow> (Inr (sorted_list_of_set dates), w2))))"

section \<open>The cache\<close>




section \<open>Upstreams for the instances\<close>

text \<open>An upstream that answers by the URL alone; its state counts the requests served.\<close>

definition by_url :: "(string \<Rightarrow> error + 'a response) \<Rightarrow> ('a, nat) http_get" where
  "by_url f rq n = (f (url rq), Suc n)"

text \<open>An upstream that gives a fixed sequence of answers, whatever is asked, and a
  connection error once the sequence is used up; its state is the rest of the sequence.\<close>

fun scripted :: "('a, (error + 'a response) list) http_get" where
  "scripted rq [] = (Inl ConnectionError, [])"
| "scripted rq (r # rs) = (r, rs)"

text \<open>
  Modelled from the spec: the hosting API of section 6 of the specification, which is not
  part of the repository. \<^verbatim>\<open>GET /users/{account}/repos\<close> answers with one page of the
  account's repositories \<open>rs\<close>: page \<^verbatim>\<open>page\<close> (1 when the request names none) of pages of
  \<^verbatim>\<open>per_page\<close> entries (30 when the request names none). The parameters are read from
  \<^verbatim>\<open>params\<close>, or, for \<^verbatim>\<open>per_page=100\<close>, from the end of the query string of the URL.
\<close>

definition per_page_of :: "request \<Rightarrow> nat" where
  "per_page_of rq =
     (case map_of (params rq) ''per_page'' of
        Some (PInt k) \<Rightarrow> k
      | _ \<Rightarrow> if drop (length (url rq) - 12) (url rq) = ''per_page=100'' then 100 else 30)"

definition page_of :: "request \<Rightarrow> nat" where
  "page_of rq = (case map_of (params rq) ''page'' of Some (PInt k) \<Rightarrow> k | _ \<Rightarrow> 1)"

definition paged_repos :: "repo list \<Rightarrow> (repo, nat) http_get" where
  "paged_repos rs rq n =
     (Inr (Response 200 (take (per_page_of rq) (drop ((page_of rq - 1) * per_page_of rq) rs))), Suc n)"

section \<open>Notions for the statements about the histogram\<close>

text \<open>The month of a commit, \<^verbatim>\<open>commit_date[:7]\<close>, and the number of commits of a month.\<close>

definition month_of :: "commit \<Rightarrow> string" where
  "month_of c = take 7 (author_date c)"

definition month_count :: "commit list \<Rightarrow> string \<Rightarrow> nat" where
  "month_count cs m = length (filter (\<lambda>c. month_of c = m) cs)"

text \<open>
  The commits fetched for a list of repositories: those of the responses with status 200,
  in the order of the requests; an exception of a request ends the fetching.
\<close>

fun fetched_commits ::
  "(commit, 'w) http_get \<Rightarrow> (string \<times> string) list \<Rightarrow> string \<Rightarrow> (string \<times> pval) list \<Rightarrow>
   repo list \<Rightarrow> 'w \<Rightarrow> (error + commit list) \<times> 'w" where
  "fetched_commits get hs username ps [] w = (Inr [], w)"
| "fetched_commits get hs username ps (r # repos) w =
     (case get (Request (commits_url username (name r)) hs ps) w of
        (Inl e, w') \<Rightarrow> (Inl e, w')
      | (Inr resp, w') \<Rightarrow>
          (case fetched_commits get hs username ps repos w' of
             (Inl e, w'') \<Rightarrow> (Inl e, w'')
           | (Inr cs, w'') \<Rightarrow> (Inr ((if status_code resp = 200 then json resp else []) @ cs), w'')))"

section \<open>Facts about dates and their rendering\<close>

lemma digit_char_0: "digit_char 0 = CHR ''0''"
  by code_simp

lemma digit_char_less: "a < 10 \<Longrightarrow> b < 10 \<Longrightarrow> digit_char a < digit_char b \<longleftrightarrow> a < b"
  by (simp add: digit_char_def less_char_def)

lemma digit_char_eq: "a < 10 \<Longrightarrow> b < 10 \<Longrightarrow> digit_char a = digit_char b \<longleftrightarrow> a = b"
  by (simp add: digit_char_def char_of_eq_iff take_bit_eq_mod)

lemma length_digs: "length (digs w n) = w"
  by (induction w arbitrary: n) simp_all

lemma digs_zero: "digs w 0 = replicate w (CHR ''0'')"
  by (induction w) (simp_all add: digit_char_0 replicate_append_same)

lemma length_dec_le: "n < 10 ^ w \<Longrightarrow> 0 < w \<Longrightarrow> length (dec n) \<le> w"
proof (induction w arbitrary: n)
  case 0
  then show ?case by simp
next
  case (Suc w)
  show ?case
  proof (cases "n < 10")
    case True
    then show ?thesis by (simp add: dec.simps)
  next
    case False
    then have w: "0 < w" using Suc.prems by (cases w) auto
    have "n div 10 < 10 ^ w" using Suc.prems by (simp add: less_mult_imp_div_less mult.commute)
    then have "length (dec (n div 10)) \<le> w" using Suc.IH w by blast
    moreover have "dec n = dec (n div 10) @ [digit_char (n mod 10)]"
      using False by (subst dec.simps) simp
    ultimately show ?thesis by simp
  qed
qed

lemma zfill_dec: "n < 10 ^ w \<Longrightarrow> 0 < w \<Longrightarrow> zfill w (dec n) = digs w n"
proof (induction w arbitrary: n)
  case 0
  then show ?case by simp
next
  case (Suc w)
  show ?case
  proof (cases "n < 10")
    case True
    then have "dec n = [digit_char n]" by (simp add: dec.simps)
    moreover have "digs (Suc w) n = replicate w (CHR ''0'') @ [digit_char n]"
      using True by (simp add: digs_zero)
    ultimately show ?thesis by (simp add: zfill_def)
  next
    case False
    then have w: "0 < w" using Suc.prems by (cases w) auto
    have lt: "n div 10 < 10 ^ w" using Suc.prems by (simp add: less_mult_imp_div_less mult.commute)
    have d: "dec n = dec (n div 10) @ [digit_char (n mod 10)]"
      using False by (subst dec.simps) simp
    have len: "length (dec (n div 10)) \<le> w" using length_dec_le lt w by blast
    have "zfill (Suc w) (dec n) = zfill w (dec (n div 10)) @ [digit_char (n mod 10)]"
      using len by (simp add: zfill_def d Suc_diff_le)
    then show ?thesis using Suc.IH [OF lt w] by simp
  qed
qed

lemma append_less_same_length:
  "length xs = length ys \<Longrightarrow> (xs @ us < ys @ vs) = (xs < ys \<or> xs = ys \<and> us < (vs :: 'a :: linorder list))"
  by (induction xs ys rule: list_induct2) auto

lemma lex10_aux:
  fixes qa ra qb rb :: nat
  assumes "ra < 10" "rb < 10"
  shows "(qa < qb \<or> qa = qb \<and> ra < rb) = (10 * qa + ra < 10 * qb + rb)"
  using assms by linarith

lemma less_div_mod_10:
  "((a::nat) div 10 < b div 10 \<or> a div 10 = b div 10 \<and> a mod 10 < b mod 10) = (a < b)"
proof -
  have "(a div 10 < b div 10 \<or> a div 10 = b div 10 \<and> a mod 10 < b mod 10) =
        (10 * (a div 10) + a mod 10 < 10 * (b div 10) + b mod 10)"
    by (rule lex10_aux) simp_all
  then show ?thesis by simp
qed

lemma eq_div_mod_10: "((a::nat) div 10 = b div 10 \<and> a mod 10 = b mod 10) = (a = b)"
  by (metis div_mult_mod_eq)

lemma div_10_less: "(n::nat) < 10 ^ Suc w \<Longrightarrow> n div 10 < 10 ^ w"
  by (simp add: less_mult_imp_div_less mult.commute)

lemma digs_eq: "a < 10 ^ w \<Longrightarrow> b < 10 ^ w \<Longrightarrow> (digs w a = digs w b) = (a = b)"
proof (induction w arbitrary: a b)
  case 0
  then show ?case by simp
next
  case (Suc w)
  have "(digs w (a div 10) = digs w (b div 10)) = (a div 10 = b div 10)"
    using Suc.prems by (intro Suc.IH div_10_less)
  then have "(digs (Suc w) a = digs (Suc w) b) = (a div 10 = b div 10 \<and> a mod 10 = b mod 10)"
    by (simp add: digit_char_eq)
  then show ?case by (simp only: eq_div_mod_10)
qed

lemma digs_less: "a < 10 ^ w \<Longrightarrow> b < 10 ^ w \<Longrightarrow> (digs w a < digs w b) = (a < b)"
proof (induction w arbitrary: a b)
  case 0
  then show ?case by simp
next
  case (Suc w)
  have l: "(digs w (a div 10) < digs w (b div 10)) = (a div 10 < b div 10)"
    using Suc.prems by (intro Suc.IH div_10_less)
  have e: "(digs w (a div 10) = digs w (b div 10)) = (a div 10 = b div 10)"
    using Suc.prems by (intro digs_eq div_10_less)
  have "(digs (Suc w) a < digs (Suc w) b) =
        (a div 10 < b div 10 \<or> a div 10 = b div 10 \<and> a mod 10 < b mod 10)"
    by (simp add: append_less_same_length length_digs l e digit_char_less)
  then show ?case by (simp only: less_div_mod_10)
qed

lemma date_str_digs:
  "small_date d \<Longrightarrow>
   date_str d = digs 4 (year d) @ CHR ''-'' # digs 2 (month d) @ CHR ''-'' # digs 2 (day d)"
  by (simp add: date_str_def small_date_def zfill_dec)

lemma date_str_eq: "small_date a \<Longrightarrow> small_date b \<Longrightarrow> (date_str a = date_str b) = (a = b)"
  by (simp add: date_str_digs length_digs) (auto simp: small_date_def digs_eq date.expand)

lemma date_str_less:
  "small_date a \<Longrightarrow> small_date b \<Longrightarrow>
   (date_str a < date_str b) =
   (year a < year b \<or> year a = year b \<and>
      (month a < month b \<or> month a = month b \<and> day a < day b))"
  by (simp add: date_str_digs length_digs append_less_same_length small_date_def digs_eq digs_less)

lemma date_str_le:
  assumes "small_date a" "small_date b"
  shows "(date_str a \<le> date_str b) = date_le a b"
proof -
  have "(date_str a \<le> date_str b) = (date_str a < date_str b \<or> date_str a = date_str b)"
    by (rule le_less)
  also have "\<dots> = date_le a b"
    unfolding date_str_less [OF assms] date_str_eq [OF assms] date_le_def
    by (cases a; cases b) auto
  finally show ?thesis .
qed

lemma prev_day_num: "prev_day d = Inr d' \<Longrightarrow> date_num d' < date_num d"
  by (cases d) (auto simp: date_num_def days_in_month_def split: if_splits)

lemma prev_day_small: "small_date d \<Longrightarrow> prev_day d = Inr d' \<Longrightarrow> small_date d'"
  by (cases d) (auto simp: small_date_def days_in_month_def split: if_splits)

lemma valid_date_small: "valid_date d \<Longrightarrow> small_date d"
  by (auto simp: valid_date_def small_date_def days_in_month_def split: if_splits)

lemma streak_run_0: "streak_run dates dy 0 = (date_str dy \<notin> set dates)"
  by (simp add: streak_run_def)

lemma streak_run_Suc:
  "streak_run dates dy (Suc n) =
     (date_str dy \<in> set dates \<and>
      (case prev_day dy of Inl e \<Rightarrow> False | Inr dy' \<Rightarrow> streak_run dates dy' n))"
  by (cases "prev_day dy") (auto simp: streak_run_def All_less_Suc2)

lemma streak_loop_run:
  "streak_loop dates dy acc = Inr m \<longleftrightarrow> (\<exists>n. m = acc + n \<and> streak_run dates dy n)"
proof (induction dates dy acc rule: streak_loop.induct)
  case (1 dates dy streak)
  show ?case
  proof (cases "date_str dy \<in> set dates")
    case False
    have "(\<exists>n. m = streak + n \<and> streak_run dates dy n) = (m = streak)"
    proof
      assume "\<exists>n. m = streak + n \<and> streak_run dates dy n"
      then obtain n where n: "m = streak + n" "streak_run dates dy n" by blast
      with False have "n = 0" by (cases n) (simp_all add: streak_run_Suc)
      with n show "m = streak" by simp
    next
      assume "m = streak"
      with False have "m = streak + 0 \<and> streak_run dates dy 0" by (simp add: streak_run_0)
      then show "\<exists>n. m = streak + n \<and> streak_run dates dy n" by blast
    qed
    with False show ?thesis by (subst streak_loop.simps) auto
  next
    case True
    show ?thesis
    proof (cases "prev_day dy")
      case (Inl e)
      have "\<not> streak_run dates dy n" for n
        using True Inl by (cases n) (simp_all add: streak_run_0 streak_run_Suc)
      with True Inl show ?thesis by (subst streak_loop.simps) simp
    next
      case (Inr dy')
      have "(\<exists>n. m = streak + n \<and> streak_run dates dy n) =
            (\<exists>k. m = streak + 1 + k \<and> streak_run dates dy' k)"
      proof
        assume "\<exists>n. m = streak + n \<and> streak_run dates dy n"
        then obtain n where n: "m = streak + n" "streak_run dates dy n" by blast
        with True obtain k where "n = Suc k" by (cases n) (simp_all add: streak_run_0)
        with n Inr show "\<exists>k. m = streak + 1 + k \<and> streak_run dates dy' k"
          by (auto simp: streak_run_Suc)
      next
        assume "\<exists>k. m = streak + 1 + k \<and> streak_run dates dy' k"
        then obtain k where "m = streak + 1 + k" "streak_run dates dy' k" by blast
        with True Inr have "m = streak + Suc k \<and> streak_run dates dy (Suc k)"
          by (simp add: streak_run_Suc)
        then show "\<exists>n. m = streak + n \<and> streak_run dates dy n" by blast
      qed
      with True Inr 1 show ?thesis by (subst streak_loop.simps) simp
    qed
  qed
qed

lemma compute_streak_iff: "compute_streak dates today = Inr n \<longleftrightarrow> streak_run dates today n"
  by (simp add: compute_streak_def streak_loop_run)

lemma finite_seen_upto: "finite (seen_upto dates dy)"
  by (simp add: seen_upto_def)

lemma seen_upto_prev:
  assumes "small_date dy" "prev_day dy = Inr dy'" "date_str dy \<in> set dates"
  shows "card (seen_upto dates dy') < card (seen_upto dates dy)"
proof (rule psubset_card_mono [OF finite_seen_upto])
  have lt: "date_num dy' < date_num dy" using assms(2) by (rule prev_day_num)
  have in_dy: "date_str dy \<in> seen_upto dates dy"
    using assms(1,3) by (auto simp: seen_upto_def)
  have "date_str dy \<notin> seen_upto dates dy'"
  proof
    assume "date_str dy \<in> seen_upto dates dy'"
    then obtain d where d: "small_date d" "date_num d \<le> date_num dy'" "date_str dy = date_str d"
      by (auto simp: seen_upto_def)
    then have "dy = d" using assms(1) by (simp add: date_str_eq)
    with d(2) lt show False by simp
  qed
  moreover have "seen_upto dates dy' \<subseteq> seen_upto dates dy"
    using lt by (auto simp: seen_upto_def)
  ultimately show "seen_upto dates dy' \<subset> seen_upto dates dy"
    using in_dy by blast
qed

lemma streak_loop_bound:
  "streak_loop dates dy acc = Inr m \<Longrightarrow> small_date dy \<Longrightarrow> m \<le> acc + card (seen_upto dates dy)"
proof (induction dates dy acc rule: streak_loop.induct)
  case (1 dates dy streak)
  show ?case
  proof (cases "date_str dy \<in> set dates")
    case False
    with "1.prems"(1) have "m = streak" by (subst (asm) streak_loop.simps) simp
    then show ?thesis by simp
  next
    case True
    with "1.prems"(1) obtain dy' where dy': "prev_day dy = Inr dy'"
      and rec: "streak_loop dates dy' (streak + 1) = Inr m"
      by (subst (asm) streak_loop.simps) (auto split: sum.splits)
    have "small_date dy'" using "1.prems"(2) dy' by (rule prev_day_small)
    with "1.IH" [OF True dy' rec] have "m \<le> streak + 1 + card (seen_upto dates dy')" by simp
    moreover have "card (seen_upto dates dy') < card (seen_upto dates dy)"
      using "1.prems"(2) dy' True by (rule seen_upto_prev)
    ultimately show ?thesis by simp
  qed
qed

lemma streak_loop_error: "streak_loop dates dy acc = Inl e \<Longrightarrow> e = OverflowError"
proof (induction dates dy acc rule: streak_loop.induct)
  case (1 dates dy streak)
  show ?case
  proof (cases "prev_day dy")
    case (Inl e')
    then have "e' = OverflowError" by (cases dy) (auto split: if_splits)
    with Inl "1.prems" show ?thesis
      by (subst (asm) streak_loop.simps) (auto split: if_splits)
  next
    case (Inr dy')
    with 1 show ?thesis
      by (subst (asm) (2) streak_loop.simps) (auto split: if_splits)
  qed
qed

lemma sub_days_add:
  "sub_days (i + j) d = (case sub_days i d of Inl e \<Rightarrow> Inl e | Inr d' \<Rightarrow> sub_days j d')"
  by (induction i arbitrary: d) (auto split: sum.splits)

lemma sub_days_num: "sub_days k d = Inr d' \<Longrightarrow> date_num d' + k \<le> date_num d"
proof (induction k arbitrary: d)
  case 0
  then show ?case by simp
next
  case (Suc k)
  then obtain d1 where d1: "prev_day d = Inr d1" "sub_days k d1 = Inr d'"
    by (auto split: sum.splits)
  from Suc.IH [OF d1(2)] prev_day_num [OF d1(1)] show ?case by simp
qed

lemma sub_days_small: "small_date d \<Longrightarrow> sub_days k d = Inr d' \<Longrightarrow> small_date d'"
  by (induction k arbitrary: d) (auto split: sum.splits dest: prev_day_small)

lemma date_le_num: "small_date a \<Longrightarrow> small_date b \<Longrightarrow> date_le a b = (date_num a \<le> date_num b)"
proof -
  assume a: "small_date a" and b: "small_date b"
  obtain ya ma da where A: "a = Date ya ma da" by (cases a)
  obtain yb mb db where B: "b = Date yb mb db" by (cases b)
  have bounds: "ma < 100" "da < 100" "mb < 100" "db < 100"
    using a b A B by (simp_all add: small_date_def)
  show ?thesis
    unfolding A B date_le_def date_num_def date.sel using bounds by auto
qed

lemma weekly_filter:
  assumes "small_date w" "\<forall>d \<in> set ds. small_date d"
  shows "filter (\<lambda>s. date_str w \<le> s) (map date_str ds) = map date_str (filter (date_le w) ds)"
  using assms(2) by (induction ds) (simp_all add: date_str_le [OF assms(1)])

section \<open>Facts about the loops over the upstream\<close>


lemma repo_pages_scripted:
  assumes "\<forall>p \<in> set pages. 100 \<le> length p"
    and "s \<noteq> 200 \<or> length final < 100"
  shows "repo_pages scripted rq acc pg
           (map (\<lambda>p. Inr (Response 200 p)) pages @ Inr (Response s final) # rest) =
         Some (Inr (acc @ concat pages @ (if s = 200 then final else [])), rest)"
  using assms(1)
proof (induction pages arbitrary: acc pg)
  case Nil
  show ?case using assms(2) by (subst repo_pages.simps) auto
next
  case (Cons p pages)
  then have p: "100 \<le> length p" and ps: "\<forall>p \<in> set pages. 100 \<le> length p" by simp_all
  from p have ne: "p \<noteq> []" by auto
  show ?case
    by (subst repo_pages.simps) (use p ne Cons.IH [OF ps] in simp)
qed




lemma map_of_bump:
  "map_of (bump kvs k) = (map_of kvs)(k \<mapsto> (case map_of kvs k of None \<Rightarrow> 1 | Some n \<Rightarrow> n + 1))"
  by (induction kvs k rule: bump.induct) (auto simp: fun_eq_iff)

lemma keys_bump: "fst ` set (bump kvs k) = insert k (fst ` set kvs)"
  by (induction kvs k rule: bump.induct) auto

lemma distinct_bump: "distinct (map fst kvs) \<Longrightarrow> distinct (map fst (bump kvs k))"
proof (induction kvs k rule: bump.induct)
  case (1 k)
  then show ?case by simp
next
  case (2 k' n kvs k)
  then show ?case using keys_bump [of kvs k] by auto
qed

lemma positive_bump: "\<forall>(m, n) \<in> set kvs. 0 < n \<Longrightarrow> \<forall>(m, n) \<in> set (bump kvs k). 0 < n"
  by (induction kvs k rule: bump.induct) auto

lemma map_of_fold_bump:
  "map_of (fold (\<lambda>c counts. bump counts (take 7 (author_date c))) cs kvs) m =
     (case map_of kvs m of
        None \<Rightarrow> if month_count cs m = 0 then None else Some (month_count cs m)
      | Some n \<Rightarrow> Some (n + month_count cs m))"
proof (induction cs arbitrary: kvs)
  case Nil
  show ?case by (simp add: month_count_def split: option.splits)
next
  case (Cons c cs)
  show ?case
    by (simp add: Cons.IH map_of_bump month_count_def month_of_def split: option.splits)
qed

lemma distinct_fold_bump:
  "distinct (map fst kvs) \<Longrightarrow>
   distinct (map fst (fold (\<lambda>c counts. bump counts (take 7 (author_date c))) cs kvs))"
  by (induction cs arbitrary: kvs) (simp_all add: distinct_bump)

lemma positive_fold_bump:
  "\<forall>(m, n) \<in> set kvs. 0 < n \<Longrightarrow>
   \<forall>(m, n) \<in> set (fold (\<lambda>c counts. bump counts (take 7 (author_date c))) cs kvs). 0 < n"
proof (induction cs arbitrary: kvs)
  case Nil
  then show ?case by simp
next
  case (Cons c cs)
  from positive_bump [OF Cons.prems] have "\<forall>(m, n) \<in> set (bump kvs (take 7 (author_date c))). 0 < n" .
  from Cons.IH [OF this] show ?case by simp
qed

lemma monthly_loop_fetched:
  "monthly_loop get hs username ps repos kvs w =
     (case fetched_commits get hs username ps repos w of
        (Inl e, w') \<Rightarrow> (Inl e, w')
      | (Inr cs, w') \<Rightarrow> (Inr (fold (\<lambda>c counts. bump counts (take 7 (author_date c))) cs kvs), w'))"
proof (induction repos arbitrary: kvs w)
  case Nil
  show ?case by simp
next
  case (Cons r repos)
  show ?case
    by (simp add: Cons.IH split: prod.splits sum.splits)
qed

lemma keys_fold_bump:
  "fst ` set (fold (\<lambda>c counts. bump counts (take 7 (author_date c))) cs kvs) =
   fst ` set kvs \<union> month_of ` set cs"
  by (induction cs arbitrary: kvs) (auto simp: keys_bump month_of_def)

lemma convert_months_map:
  "\<forall>(m, k) \<in> set items. to_datetime m \<noteq> None \<Longrightarrow>
   convert_months to_datetime items = Some (map (\<lambda>(m, k). (the (to_datetime m), k)) items)"
  by (induction items) auto

lemma convert_months_counts:
  "convert_months to_datetime items = Some rows \<Longrightarrow> map snd rows = map snd items"
  by (induction items arbitrary: rows) (auto split: option.splits)

lemma monthly_commits_fetched:
  assumes "get_repos (Request (repos_url username) (monthly_headers secret) []) w = (Inr resp, w1)"
    and "status_code resp < 400 \<or> 600 \<le> status_code resp"
    and "minus_days now (months * 30) = Inr start"
    and "fetched_commits get_commits (monthly_headers secret) username
           [(''since'', PTime start), (''until'', PTime now)] (json resp) w1 = (Inr cs, w2)"
  shows "get_github_monthly_commits get_repos get_commits to_datetime secret now username months w =
     (let items = fold (\<lambda>c counts. bump counts (take 7 (author_date c))) cs []
      in if items = [] then (None, w2)
         else (case convert_months to_datetime items of
                 None \<Rightarrow> (None, w2)
               | Some rows \<Rightarrow> (Some (sort_key fst rows), w2)))"
proof -
  have c: "(400 \<le> status_code resp \<and> status_code resp < 600) = False" using assms(2) by auto
  show ?thesis
    unfolding get_github_monthly_commits_def monthly_loop_fetched assms(1) prod.case sum.case c
      if_False assms(3) assms(4) Let_def
    by simp
qed

lemma fold_bump_empty:
  "(fold (\<lambda>c counts. bump counts (take 7 (author_date c))) cs [] = []) = (cs = [])"
proof
  assume "fold (\<lambda>c counts. bump counts (take 7 (author_date c))) cs [] = []"
  then have "fst ` set (fold (\<lambda>c counts. bump counts (take 7 (author_date c))) cs []) = {}"
    by simp
  then have "month_of ` set cs = {}" by (simp add: keys_fold_bump)
  then show "cs = []" by simp
next
  assume "cs = []"
  then show "fold (\<lambda>c counts. bump counts (take 7 (author_date c))) cs [] = []" by simp
qed

lemma monthly_commits_some:
  assumes "get_github_monthly_commits get_repos get_commits to_datetime secret now username months w = (Some rows, w')"
  obtains cs unsorted where
    "fold (\<lambda>c counts. bump counts (take 7 (author_date c))) cs [] \<noteq> []"
    "convert_months to_datetime (fold (\<lambda>c counts. bump counts (take 7 (author_date c))) cs []) = Some unsorted"
    "rows = sort_key fst unsorted"
  using assms unfolding get_github_monthly_commits_def monthly_loop_fetched
  by (auto split: prod.splits sum.splits if_splits option.splits)

lemma rows_positive:
  assumes r: "get_github_monthly_commits get_repos get_commits to_datetime secret now username months w = (Some rows, w')"
  shows "rows \<noteq> [] \<and> (\<forall>(t, k) \<in> set rows. 0 < k)"
proof -
  from r obtain cs unsorted where
    ne: "fold (\<lambda>c counts. bump counts (take 7 (author_date c))) cs [] \<noteq> []"
    and conv: "convert_months to_datetime (fold (\<lambda>c counts. bump counts (take 7 (author_date c))) cs []) = Some unsorted"
    and rows: "rows = sort_key fst unsorted"
    by (rule monthly_commits_some)
  define items where "items = fold (\<lambda>c counts. bump counts (take 7 (author_date c))) cs []"
  have pos: "\<forall>(m, n) \<in> set items. 0 < n"
    unfolding items_def by (rule positive_fold_bump) simp
  from conv have snd: "map snd unsorted = map snd items"
    unfolding items_def by (rule convert_months_counts)
  have "length (map snd unsorted) = length (map snd items)" using snd by simp
  then have "length rows = length items" using rows by simp
  moreover have "items \<noteq> []" using ne by (simp add: items_def)
  ultimately have 1: "rows \<noteq> []" by auto
  have "set (map snd unsorted) = set (map snd items)" using snd by simp
  then have e: "snd ` set rows = snd ` set items" using rows by simp
  have 2: "\<forall>(t, k) \<in> set rows. 0 < k"
  proof (rule ballI)
    fix x assume "x \<in> set rows"
    then have "snd x \<in> snd ` set items" using e by blast
    then obtain y where "y \<in> set items" "snd y = snd x" by auto
    with pos have "0 < snd x" by (cases y) auto
    then show "case x of (t, k) \<Rightarrow> 0 < k" by (cases x) simp
  qed
  from 1 2 show ?thesis by blast
qed

lemma no_commits_none:
  assumes "get_repos (Request (repos_url username) (monthly_headers secret) []) w = (Inr resp, w1)"
    and "status_code resp < 400 \<or> 600 \<le> status_code resp"
    and "minus_days now (months * 30) = Inr start"
    and "fetched_commits get_commits (monthly_headers secret) username
           [(''since'', PTime start), (''until'', PTime now)] (json resp) w1 = (Inr [], w2)"
  shows "get_github_monthly_commits get_repos get_commits to_datetime secret now username months w = (None, w2)"
proof -
  have "get_github_monthly_commits get_repos get_commits to_datetime secret now username months w =
     (let items = fold (\<lambda>c counts. bump counts (take 7 (author_date c))) [] []
      in if items = [] then (None, w2)
         else (case convert_months to_datetime items of
                 None \<Rightarrow> (None, w2)
               | Some rows \<Rightarrow> (Some (sort_key fst rows), w2)))"
    by (rule monthly_commits_fetched [where get_repos = get_repos and get_commits = get_commits,
          OF assms])
  then show ?thesis by simp
qed

lemma window_150: "minus_days (Datetime (Date 2025 3 5) 0) 150 = Inr (Datetime (Date 2024 10 6) 0)"
  by code_simp

lemma dec_2025: "dec 2025 = ''2025''"
  by code_simp

section \<open>The streak\<close>

text \<open>
  Claim C2, as the code has it. \<^verbatim>\<open>compute_streak\<close> returns \<open>n\<close> exactly when the \<open>n\<close>
  calendar days ending at today (inclusive) all have their date string in the collection and
  the day \<open>n\<close> days before today is the first one missing. It returns 0 on the empty
  collection and whenever today is absent; the run of five days ending today, with the day
  before them missing, gives 5 (see the instance below, which crosses a month boundary).
  The first missing day has to exist: the walk cannot step below 0001-01-01.
\<close>

theorem compute_streak_counts_run:
  "(compute_streak dates today = Inr n \<longleftrightarrow> streak_run dates today n) \<and>
   compute_streak [] today = Inr 0 \<and>
   (date_str today \<notin> set dates \<longrightarrow> compute_streak dates today = Inr 0)"
proof (intro conjI impI)
  show "compute_streak dates today = Inr n \<longleftrightarrow> streak_run dates today n"
    unfolding compute_streak_def using streak_loop_run [of dates today 0 n] by simp
next
  have "streak_run [] today 0" by (simp add: streak_run_0)
  then show "compute_streak [] today = Inr 0" by (simp add: compute_streak_iff)
next
  assume "date_str today \<notin> set dates"
  then have "streak_run dates today 0" by (simp add: streak_run_0)
  then show "compute_streak dates today = Inr 0" by (simp add: compute_streak_iff)
qed

theorem compute_streak_counts_run_witness:
  "streak_run [''2025-03-02'', ''2025-03-01'', ''2025-02-28'', ''2025-02-27'', ''2025-02-26'', ''2025-02-20'']
      (Date 2025 3 2) 5 \<and>
   compute_streak [''2025-03-02'', ''2025-03-01'', ''2025-02-28'', ''2025-02-27'', ''2025-02-26'', ''2025-02-20'']
      (Date 2025 3 2) = Inr 5 \<and>
   date_str (Date 2025 3 2) \<notin> set [''2025-03-01''] \<and>
   compute_streak [''2025-03-01''] (Date 2025 3 2) = Inr 0"
proof -
  let ?ds = "[''2025-03-02'', ''2025-03-01'', ''2025-02-28'', ''2025-02-27'', ''2025-02-26'', ''2025-02-20'']"
  have r: "streak_run ?ds (Date 2025 3 2) 5" by code_simp
  have a: "date_str (Date 2025 3 2) \<notin> set [''2025-03-01'']" by code_simp
  from r a compute_streak_counts_run [of ?ds "Date 2025 3 2" 5]
    compute_streak_counts_run [of "[''2025-03-01'']" "Date 2025 3 2" 0]
  show ?thesis by blast
qed

text \<open>
  When every day back to \<^verbatim>\<open>date.min\<close> is present, the walk counts the last day and then
  fails on \<^verbatim>\<open>day -= timedelta(days=1)\<close>: no count is returned.
\<close>

theorem compute_streak_overflow:
  "date_str (Date 1 1 1) \<in> set [''0001-01-01''] \<and>
   compute_streak [''0001-01-01''] (Date 1 1 1) = Inl OverflowError"
  by code_simp

section \<open>The weekly increase\<close>

text \<open>
  Claim C8, as the code has it. When today is on or after 0001-01-08, so that
  \<^verbatim>\<open>today - timedelta(days=7)\<close> is a date \<open>w\<close>, \<^verbatim>\<open>get_weekly_streak_increase\<close> on the ISO
  renderings of the dates \<open>ds\<close> returns the number of entries that are on or after \<open>w\<close>
  (the string comparison of the code agrees with the calendar order). On
  \<open>{today, today-3, today-10}\<close> it returns 2.
\<close>

theorem weekly_increase_counts:
  assumes "valid_date today" and "\<forall>d \<in> set ds. valid_date d"
    and "sub_days 7 today = Inr w"
  shows "get_weekly_streak_increase (map date_str ds) today = Inr (length (filter (date_le w) ds)) \<and>
         (\<forall>d3 d10. sub_days 3 today = Inr d3 \<longrightarrow> sub_days 10 today = Inr d10 \<longrightarrow>
            get_weekly_streak_increase [date_str today, date_str d3, date_str d10] today = Inr 2)"
proof
  have st: "small_date today" using assms(1) by (rule valid_date_small)
  have sw: "small_date w" using st assms(3) by (rule sub_days_small)
  have sds: "\<forall>d \<in> set ds. small_date d" using assms(2) by (auto dest: valid_date_small)
  show "get_weekly_streak_increase (map date_str ds) today = Inr (length (filter (date_le w) ds))"
    by (simp add: get_weekly_streak_increase_def assms(3) weekly_filter [OF sw sds])
  show "\<forall>d3 d10. sub_days 3 today = Inr d3 \<longrightarrow> sub_days 10 today = Inr d10 \<longrightarrow>
            get_weekly_streak_increase [date_str today, date_str d3, date_str d10] today = Inr 2"
  proof (intro allI impI)
    fix d3 d10
    assume d3: "sub_days 3 today = Inr d3" and d10: "sub_days 10 today = Inr d10"
    have s3: "small_date d3" using st d3 by (rule sub_days_small)
    have s10: "small_date d10" using st d10 by (rule sub_days_small)
    have "sub_days (3 + 4) today = Inr w" using assms(3) by simp
    then have "sub_days 4 d3 = Inr w" unfolding sub_days_add by (simp add: d3)
    then have n3: "date_num w + 4 \<le> date_num d3" by (rule sub_days_num)
    have "sub_days (7 + 3) today = Inr d10" using d10 by simp
    then have "sub_days 3 w = Inr d10" unfolding sub_days_add by (simp add: assms(3))
    then have n10: "date_num d10 + 3 \<le> date_num w" by (rule sub_days_num)
    have n0: "date_num w + 7 \<le> date_num today" using assms(3) by (rule sub_days_num)
    have "date_str w \<le> date_str today" "date_str w \<le> date_str d3" "\<not> date_str w \<le> date_str d10"
      using n0 n3 n10 by (simp_all add: date_str_le sw st s3 s10 date_le_num)
    then show "get_weekly_streak_increase [date_str today, date_str d3, date_str d10] today = Inr 2"
      by (simp add: get_weekly_streak_increase_def assms(3))
  qed
qed

theorem weekly_increase_counts_witness:
  "valid_date (Date 2025 3 5) \<and> valid_date (Date 2025 2 26) \<and> valid_date (Date 2025 2 25) \<and>
   sub_days 7 (Date 2025 3 5) = Inr (Date 2025 2 26) \<and>
   sub_days 3 (Date 2025 3 5) = Inr (Date 2025 3 2) \<and>
   sub_days 10 (Date 2025 3 5) = Inr (Date 2025 2 23) \<and>
   get_weekly_streak_increase (map date_str [Date 2025 3 5, Date 2025 2 26, Date 2025 2 25]) (Date 2025 3 5)
     = Inr 2 \<and>
   get_weekly_streak_increase [date_str (Date 2025 3 5), date_str (Date 2025 3 2), date_str (Date 2025 2 23)]
     (Date 2025 3 5) = Inr 2"
proof -
  have v: "valid_date (Date 2025 3 5)" by code_simp
  have vs: "\<forall>d \<in> set [Date 2025 3 5, Date 2025 2 26, Date 2025 2 25]. valid_date d" by code_simp
  have s7: "sub_days 7 (Date 2025 3 5) = Inr (Date 2025 2 26)" by code_simp
  have s3: "sub_days 3 (Date 2025 3 5) = Inr (Date 2025 3 2)" by code_simp
  have s10: "sub_days 10 (Date 2025 3 5) = Inr (Date 2025 2 23)" by code_simp
  have f: "length (filter (date_le (Date 2025 2 26)) [Date 2025 3 5, Date 2025 2 26, Date 2025 2 25]) = 2"
    by code_simp
  have v2: "valid_date (Date 2025 2 26)" and v3: "valid_date (Date 2025 2 25)" using vs by simp_all
  from weekly_increase_counts [OF v vs s7] v v2 v3 s7 s3 s10 f show ?thesis by simp
qed

text \<open>
  In the first week of the calendar the subtraction of seven days raises
  \<^verbatim>\<open>OverflowError\<close>, and no count is returned.
\<close>

theorem weekly_increase_overflow:
  "valid_date (Date 1 1 3) \<and>
   get_weekly_streak_increase [date_str (Date 1 1 3)] (Date 1 1 3) = Inl OverflowError"
  by code_simp

section \<open>Termination and size of the streak\<close>

text \<open>
  Claim C10. The backward walk of \<^verbatim>\<open>compute_streak\<close> terminates for every collection and
  every starting date: \<open>streak_loop\<close> is a total function, its termination proved above
  with the measure \<open>date_num\<close>, which every step to the previous day decreases. It ends
  either by returning a streak, which is at most the number of distinct members of the
  collection, or, at \<^verbatim>\<open>date.min\<close>, with \<^verbatim>\<open>OverflowError\<close>.
\<close>

theorem compute_streak_bound:
  assumes "valid_date today"
  shows "case compute_streak dates today of
           Inl e \<Rightarrow> e = OverflowError
         | Inr n \<Rightarrow> n \<le> card (set dates)"
proof (cases "compute_streak dates today")
  case (Inl e)
  then show ?thesis by (simp add: compute_streak_def streak_loop_error)
next
  case (Inr n)
  then have "n \<le> 0 + card (seen_upto dates today)"
    unfolding compute_streak_def using valid_date_small [OF assms] by (rule streak_loop_bound)
  also have "card (seen_upto dates today) \<le> card (set dates)"
    by (rule card_mono) (auto simp: seen_upto_def)
  finally show ?thesis using Inr by simp
qed

theorem compute_streak_bound_witness:
  "valid_date (Date 2024 3 1) \<and>
   compute_streak [''2024-03-01'', ''2024-02-29'', ''2024-02-27'', ''2024-02-29''] (Date 2024 3 1) = Inr 2 \<and>
   card (set [''2024-03-01'', ''2024-02-29'', ''2024-02-27'', ''2024-02-29'']) = 3 \<and>
   (case compute_streak [''2024-03-01'', ''2024-02-29'', ''2024-02-27'', ''2024-02-29''] (Date 2024 3 1) of
      Inl e \<Rightarrow> e = OverflowError
    | Inr n \<Rightarrow> n \<le> card (set [''2024-03-01'', ''2024-02-29'', ''2024-02-27'', ''2024-02-29'']))"
proof -
  let ?ds = "[''2024-03-01'', ''2024-02-29'', ''2024-02-27'', ''2024-02-29'']"
  have v: "valid_date (Date 2024 3 1)" by code_simp
  have c: "compute_streak ?ds (Date 2024 3 1) = Inr 2" by code_simp
  have k: "card (set ?ds) = 3" by code_simp
  from compute_streak_bound [OF v, of ?ds] v c k show ?thesis by simp
qed

section \<open>Failures of the upstream\<close>

text \<open>
  Claim C1 asks that no failing response and no network-level error leaves an aggregation
  operation as an exception. \<^verbatim>\<open>get_github_monthly_commits\<close> does so: its \<^verbatim>\<open>try\<close> covers the
  listing request, and a listing answered with 403 gives \<^verbatim>\<open>None\<close>. \<^verbatim>\<open>get_daily_commit_dates\<close>
  does not: its listing request \<^verbatim>\<open>github_request(repos_url, ...)\<close> is outside any \<^verbatim>\<open>try\<close>, and
  the same answer leaves it as \<^verbatim>\<open>HTTPError\<close>. A connection error of \<^verbatim>\<open>requests.get\<close>
  leaves \<^verbatim>\<open>get_repo_count\<close> and \<^verbatim>\<open>get_repos_created_this_year\<close> in the same way.
\<close>

theorem listing_failure_escapes:
  "get_daily_commit_dates (by_url (\<lambda>u. Inr (Response 403 []))) (by_url (\<lambda>u. Inr (Response 200 [])))
     None (Datetime (Date 2025 3 5) 0) ''duckola'' 5 0 = (Inl (HTTPError 403), 1) \<and>
   get_github_monthly_commits (by_url (\<lambda>u. Inr (Response 403 []))) (by_url (\<lambda>u. Inr (Response 200 [])))
     (Some :: string \<Rightarrow> string option) None (Datetime (Date 2025 3 5) 0) ''duckola'' 5 0 = (None, 1) \<and>
   get_repo_count (by_url (\<lambda>u. Inl ConnectionError)) None ''duckola'' True 0
     = Some (Inl ConnectionError, 1) \<and>
   get_repos_created_this_year (by_url (\<lambda>u. Inl ConnectionError)) None 2025 ''duckola'' 0
     = (Inl ConnectionError, 1)"
  by (simp add: get_daily_commit_dates_def github_request_def by_url_def
      get_github_monthly_commits_def get_repo_count_def repo_pages.simps
      get_repos_created_this_year_def)

section \<open>Paging through the repositories\<close>

lemma repos_url_no_query: "drop (length (repos_url user) - 12) (repos_url user) \<noteq> ''per_page=100''"
proof
  assume a: "drop (length (repos_url user) - 12) (repos_url user) = ''per_page=100''"
  have "length (repos_url user) - 12 < length (repos_url user)"
    by (simp add: repos_url_def)
  then have "last (drop (length (repos_url user) - 12) (repos_url user)) = last (repos_url user)"
    by (rule last_drop)
  moreover have "last (repos_url user) = CHR ''s''"
    by (simp add: repos_url_def)
  ultimately show False using a by simp
qed

lemma paged_default_answer:
  "paged_repos rs (Request (repos_url user) hs []) n = (Inr (Response 200 (take 30 rs)), Suc n)"
  by (simp add: paged_repos_def per_page_of_def page_of_def repos_url_no_query)

text \<open>
  Claim C3 asks that \<^verbatim>\<open>get_repo_count\<close> fetch every page of the account's repositories,
  100 to a page. The loop builds \<^verbatim>\<open>params\<close> with \<^verbatim>\<open>page\<close> and \<^verbatim>\<open>per_page = 100\<close> and then
  calls \<^verbatim>\<open>requests.get(url, headers=headers)\<close> without them, so every request is for the
  first page of the default size. Against an upstream that pages as asked, the first answer
  has at most 30 entries, fewer than 100, and the loop ends there: whatever the number of
  repositories \<open>rs\<close> of the account, one request is made and the count is over the first
  30 of them. For 101 repositories, none of them a fork, the count is 30.
\<close>

theorem repo_count_first_page:
  "get_repo_count (paged_repos rs) secret user use_token n =
     Some (Inr (length (filter (\<lambda>r. \<not> fork r) (take 30 rs))), Suc n) \<and>
   get_repo_count (paged_repos (replicate 101 (Repo ''site'' ''2025-01-05T00:00:00Z'' False)))
     None ''duckola'' True 0 = Some (Inr 30, 1)"
proof
  have short: "length (take 30 rs) < 100" by simp
  have "repo_pages (paged_repos rs) (Request (repos_url user) (count_headers secret use_token) []) [] 1 n =
        Some (Inr (take 30 rs), Suc n)"
  proof (cases "take 30 rs = []")
    case True
    then show ?thesis
      by (subst repo_pages.simps) (simp add: paged_default_answer)
  next
    case False
    with short show ?thesis
      by (subst repo_pages.simps) (simp add: paged_default_answer)
  qed
  then show "get_repo_count (paged_repos rs) secret user use_token n =
     Some (Inr (length (filter (\<lambda>r. \<not> fork r) (take 30 rs))), Suc n)"
    by (simp add: get_repo_count_def)
  show "get_repo_count (paged_repos (replicate 101 (Repo ''site'' ''2025-01-05T00:00:00Z'' False)))
     None ''duckola'' True 0 = Some (Inr 30, 1)"
    by (simp add: get_repo_count_def repo_pages.simps paged_repos_def per_page_of_def page_of_def
        repos_url_def count_headers_def)
qed

text \<open>
  The loop on the answers it receives, whatever was asked: pages of 100 or more are
  appended until an answer is not 200 or is shorter than 100, and an answer other than 200
  ends the loop with \<^verbatim>\<open>break\<close>, the pages before it counted.
\<close>

lemma repo_count_keeps_pages:
  assumes "\<forall>p \<in> set pages. 100 \<le> length p"
    and "s \<noteq> 200 \<or> length final < 100"
  shows "get_repo_count scripted secret user use_token
           (map (\<lambda>p. Inr (Response 200 p)) pages @ Inr (Response s final) # rest) =
         Some (Inr (length (filter (\<lambda>r. \<not> fork r) (concat pages @ (if s = 200 then final else [])))),
               rest)"
proof -
  have "repo_pages scripted (Request (repos_url user) (count_headers secret use_token) []) [] 1
          (map (\<lambda>p. Inr (Response 200 p)) pages @ Inr (Response s final) # rest) =
        Some (Inr ([] @ concat pages @ (if s = 200 then final else [])), rest)"
    using assms by (rule repo_pages_scripted)
  then show ?thesis
    by (simp add: get_repo_count_def del: filter_append)
qed

section \<open>One repository fails\<close>

text \<open>
  Claim C4 asks that a repository whose commits cannot be fetched does not diminish the
  others. \<^verbatim>\<open>get_daily_commit_dates\<close> wraps each fetch in \<^verbatim>\<open>try ... except Exception: continue\<close>
  and keeps the commits of the other repositories. \<^verbatim>\<open>get_github_monthly_commits\<close> skips a
  repository only on a status other than 200: when \<^verbatim>\<open>requests.get\<close> raises for one
  repository, the exception reaches the outer \<^verbatim>\<open>except\<close> and the function returns \<^verbatim>\<open>None\<close>,
  without the commits of the repository that answered.
\<close>

theorem one_repository_fails:
  "get_github_monthly_commits
     (by_url (\<lambda>u. Inr (Response 200 [Repo ''a'' ''2024-01-01T00:00:00Z'' False,
                                      Repo ''b'' ''2024-02-01T00:00:00Z'' False])))
     (by_url (\<lambda>u. if u = commits_url ''duckola'' ''a'' then Inl ConnectionError
                   else Inr (Response 200 [Commit ''2025-01-05T10:00:00Z''])))
     (Some :: string \<Rightarrow> string option) None (Datetime (Date 2025 3 5) 0) ''duckola'' 5 0 = (None, 2) \<and>
   get_daily_commit_dates
     (by_url (\<lambda>u. Inr (Response 200 [Repo ''a'' ''2024-01-01T00:00:00Z'' False,
                                      Repo ''b'' ''2024-02-01T00:00:00Z'' False])))
     (by_url (\<lambda>u. if u = commits_url ''duckola'' ''a'' then Inl ConnectionError
                   else Inr (Response 200 [Commit ''2025-01-05T10:00:00Z''])))
     None (Datetime (Date 2025 3 5) 0) ''duckola'' 5 0 = (Inr [''2025-01-05''], 3)"
  by (simp add: get_github_monthly_commits_def get_daily_commit_dates_def github_request_def
      by_url_def window_150 commits_url_def)

section \<open>Calling twice\<close>




section \<open>The monthly histogram\<close>

text \<open>
  Claim C6. When the listing succeeds and the commits \<open>cs\<close> are fetched, the dictionary
  \<open>items\<close> of \<^verbatim>\<open>get_github_monthly_commits\<close> has each month of a commit once and maps it to the
  number of commits of that month, \<^verbatim>\<open>commit_date[:7]\<close>; the function returns its rows, the
  months converted and in their order. The instance below has commits on 2025-01-05,
  2025-01-20 and 2025-02-01 and gives 2 for 2025-01 and 1 for 2025-02.
\<close>

theorem monthly_histogram:
  assumes "get_repos (Request (repos_url username) (monthly_headers secret) []) w = (Inr resp, w1)"
    and "status_code resp < 400 \<or> 600 \<le> status_code resp"
    and "minus_days now (months * 30) = Inr start"
    and "fetched_commits get_commits (monthly_headers secret) username
           [(''since'', PTime start), (''until'', PTime now)] (json resp) w1 = (Inr cs, w2)"
    and "cs \<noteq> []"
    and "\<forall>c \<in> set cs. to_datetime (month_of c) \<noteq> None"
  shows "\<exists>items.
     distinct (map fst items) \<and>
     (\<forall>m. map_of items m = (if m \<in> month_of ` set cs then Some (month_count cs m) else None)) \<and>
     get_github_monthly_commits get_repos get_commits to_datetime secret now username months w =
       (Some (sort_key fst (map (\<lambda>(m, k). (the (to_datetime m), k)) items)), w2)"
proof -
  define items where "items = fold (\<lambda>c counts. bump counts (take 7 (author_date c))) cs []"
  have d: "distinct (map fst items)"
    unfolding items_def by (rule distinct_fold_bump) simp
  have keys: "fst ` set items = month_of ` set cs"
    unfolding items_def by (simp add: keys_fold_bump)
  have pos: "(m \<in> month_of ` set cs) = (month_count cs m \<noteq> 0)" for m
    by (auto simp: month_count_def filter_empty_conv)
  have m: "map_of items m = (if m \<in> month_of ` set cs then Some (month_count cs m) else None)" for m
    unfolding items_def by (simp add: map_of_fold_bump pos)
  have ne: "items \<noteq> []"
    unfolding items_def using assms(5) by (simp add: fold_bump_empty)
  have "\<forall>(m, k) \<in> set items. to_datetime m \<noteq> None"
  proof (rule ballI)
    fix x assume x: "x \<in> set items"
    then have "fst x \<in> month_of ` set cs" using keys by blast
    then obtain c where "c \<in> set cs" "fst x = month_of c" by auto
    with assms(6) have "to_datetime (fst x) \<noteq> None" by auto
    then show "case x of (m, k) \<Rightarrow> to_datetime m \<noteq> None" by (cases x) simp
  qed
  then have c: "convert_months to_datetime items = Some (map (\<lambda>(m, k). (the (to_datetime m), k)) items)"
    by (rule convert_months_map)
  have "get_github_monthly_commits get_repos get_commits to_datetime secret now username months w =
     (let items = fold (\<lambda>c counts. bump counts (take 7 (author_date c))) cs []
      in if items = [] then (None, w2)
         else (case convert_months to_datetime items of
                 None \<Rightarrow> (None, w2)
               | Some rows \<Rightarrow> (Some (sort_key fst rows), w2)))"
    by (rule monthly_commits_fetched [where get_repos = get_repos and get_commits = get_commits,
          OF assms(1-4)])
  then have "get_github_monthly_commits get_repos get_commits to_datetime secret now username months w =
       (Some (sort_key fst (map (\<lambda>(m, k). (the (to_datetime m), k)) items)), w2)"
    using ne c by (simp add: items_def [symmetric] Let_def)
  with d m show ?thesis by blast
qed

theorem monthly_histogram_witness:
  "get_github_monthly_commits
     (by_url (\<lambda>u. Inr (Response 200 [Repo ''site'' ''2024-01-01T00:00:00Z'' False])))
     (by_url (\<lambda>u. Inr (Response 200 [Commit ''2025-01-05T10:00:00Z'', Commit ''2025-02-01T09:30:00Z'',
                                      Commit ''2025-01-20T18:45:00Z''])))
     (Some :: string \<Rightarrow> string option) None (Datetime (Date 2025 3 5) 0) ''duckola'' 5 0
     = (Some [(''2025-01'', 2), (''2025-02'', 1)], 2) \<and>
   (\<exists>items. distinct (map fst items) \<and>
      map_of items ''2025-01'' = Some 2 \<and> map_of items ''2025-02'' = Some 1 \<and>
      map_of items ''2025-03'' = None \<and>
      get_github_monthly_commits
        (by_url (\<lambda>u. Inr (Response 200 [Repo ''site'' ''2024-01-01T00:00:00Z'' False])))
        (by_url (\<lambda>u. Inr (Response 200 [Commit ''2025-01-05T10:00:00Z'', Commit ''2025-02-01T09:30:00Z'',
                                         Commit ''2025-01-20T18:45:00Z''])))
        (Some :: string \<Rightarrow> string option) None (Datetime (Date 2025 3 5) 0) ''duckola'' 5 0
        = (Some (sort_key fst (map (\<lambda>(m, k). (the (Some m), k)) items)), 2))"
proof
  let ?gr = "by_url (\<lambda>u. Inr (Response 200 [Repo ''site'' ''2024-01-01T00:00:00Z'' False]))
               :: (repo, nat) http_get"
  let ?cs = "[Commit ''2025-01-05T10:00:00Z'', Commit ''2025-02-01T09:30:00Z'',
              Commit ''2025-01-20T18:45:00Z'']"
  let ?gc = "by_url (\<lambda>u. Inr (Response 200 ?cs)) :: (commit, nat) http_get"
  let ?now = "Datetime (Date 2025 3 5) 0"
  show "get_github_monthly_commits ?gr ?gc (Some :: string \<Rightarrow> string option) None ?now ''duckola'' 5 0
     = (Some [(''2025-01'', 2), (''2025-02'', 1)], 2)"
    by (simp add: get_github_monthly_commits_def by_url_def window_150)
  have 1: "?gr (Request (repos_url ''duckola'') (monthly_headers None) []) 0
        = (Inr (Response 200 [Repo ''site'' ''2024-01-01T00:00:00Z'' False]), 1)"
    by (simp add: by_url_def)
  have 2: "status_code (Response 200 [Repo ''site'' ''2024-01-01T00:00:00Z'' False]) < 400 \<or>
        600 \<le> status_code (Response 200 [Repo ''site'' ''2024-01-01T00:00:00Z'' False])"
    by simp
  have 3: "minus_days ?now (5 * 30) = Inr (Datetime (Date 2024 10 6) 0)"
    using window_150 by simp
  have 4: "fetched_commits ?gc (monthly_headers None) ''duckola''
          [(''since'', PTime (Datetime (Date 2024 10 6) 0)), (''until'', PTime ?now)]
          (json (Response 200 [Repo ''site'' ''2024-01-01T00:00:00Z'' False])) 1 = (Inr ?cs, 2)"
    by (simp add: by_url_def)
  have 5: "?cs \<noteq> []" by simp
  have 6: "\<forall>c \<in> set ?cs. (Some :: string \<Rightarrow> string option) (month_of c) \<noteq> None" by simp
  from monthly_histogram [where get_repos = ?gr and get_commits = ?gc, OF 1 2 3 4 5 6]
  obtain items where d: "distinct (map fst items)"
    and m: "\<And>m. map_of items m = (if m \<in> month_of ` set ?cs then Some (month_count ?cs m) else None)"
    and r: "get_github_monthly_commits ?gr ?gc (Some :: string \<Rightarrow> string option) None ?now ''duckola'' 5 0
        = (Some (sort_key fst (map (\<lambda>(m, k). (the (Some m), k)) items)), 2)"
    by blast
  have "map_of items ''2025-01'' = Some 2" "map_of items ''2025-02'' = Some 1"
       "map_of items ''2025-03'' = None"
    by (simp_all add: m month_of_def month_count_def)
  with d r show "\<exists>items. distinct (map fst items) \<and>
      map_of items ''2025-01'' = Some 2 \<and> map_of items ''2025-02'' = Some 1 \<and>
      map_of items ''2025-03'' = None \<and>
      get_github_monthly_commits ?gr ?gc (Some :: string \<Rightarrow> string option) None ?now ''duckola'' 5 0
        = (Some (sort_key fst (map (\<lambda>(m, k). (the (Some m), k)) items)), 2)"
    by blast
qed

section \<open>No commits\<close>

text \<open>
  Claim C7. When the listing succeeds and no commit at all is fetched,
  \<^verbatim>\<open>get_github_monthly_commits\<close> returns \<^verbatim>\<open>None\<close>; and whenever it returns rows there is at
  least one, each with a positive count: \<^verbatim>\<open>None\<close> is never confused with a series of zeros.
\<close>

theorem no_commits_no_frame:
  "(get_repos (Request (repos_url username) (monthly_headers secret) []) w = (Inr resp, wa) \<and>
    (status_code resp < 400 \<or> 600 \<le> status_code resp) \<and>
    minus_days now (months * 30) = Inr start \<and>
    fetched_commits get_commits (monthly_headers secret) username
      [(''since'', PTime start), (''until'', PTime now)] (json resp) wa = (Inr [], wb) \<longrightarrow>
    get_github_monthly_commits get_repos get_commits to_datetime secret now username months w = (None, wb)) \<and>
   (get_github_monthly_commits get_repos get_commits to_datetime secret now username months w = (Some rows, w') \<longrightarrow>
    rows \<noteq> [] \<and> (\<forall>(t, k) \<in> set rows. 0 < k))"
proof (rule conjI; rule impI)
  assume a: "get_repos (Request (repos_url username) (monthly_headers secret) []) w = (Inr resp, wa) \<and>
    (status_code resp < 400 \<or> 600 \<le> status_code resp) \<and>
    minus_days now (months * 30) = Inr start \<and>
    fetched_commits get_commits (monthly_headers secret) username
      [(''since'', PTime start), (''until'', PTime now)] (json resp) wa = (Inr [], wb)"
  from a have a1: "get_repos (Request (repos_url username) (monthly_headers secret) []) w = (Inr resp, wa)"
    by (rule conjunct1)
  from a have a2: "status_code resp < 400 \<or> 600 \<le> status_code resp"
    by (rule conjunct2 [THEN conjunct1])
  from a have a3: "minus_days now (months * 30) = Inr start"
    by (rule conjunct2 [THEN conjunct2, THEN conjunct1])
  from a have a4: "fetched_commits get_commits (monthly_headers secret) username
      [(''since'', PTime start), (''until'', PTime now)] (json resp) wa = (Inr [], wb)"
    by (rule conjunct2 [THEN conjunct2, THEN conjunct2])
  show "get_github_monthly_commits get_repos get_commits to_datetime secret now username months w = (None, wb)"
    by (rule no_commits_none [where get_repos = get_repos and get_commits = get_commits,
          OF a1 a2 a3 a4])
next
  assume "get_github_monthly_commits get_repos get_commits to_datetime secret now username months w = (Some rows, w')"
  then show "rows \<noteq> [] \<and> (\<forall>(t, k) \<in> set rows. 0 < k)" by (rule rows_positive)
qed

theorem no_commits_no_frame_witness:
  "get_github_monthly_commits
     (by_url (\<lambda>u. Inr (Response 200 [Repo ''site'' ''2024-01-01T00:00:00Z'' False,
                                      Repo ''empty'' ''2024-02-01T00:00:00Z'' False])))
     (by_url (\<lambda>u. if u = commits_url ''duckola'' ''empty'' then Inr (Response 409 [])
                   else Inr (Response 200 [])))
     (Some :: string \<Rightarrow> string option) None (Datetime (Date 2025 3 5) 0) ''duckola'' 5 0 = (None, 3) \<and>
   fetched_commits
     (by_url (\<lambda>u. if u = commits_url ''duckola'' ''empty'' then Inr (Response 409 [])
                   else Inr (Response 200 [])))
     (monthly_headers None) ''duckola''
     [(''since'', PTime (Datetime (Date 2024 10 6) 0)), (''until'', PTime (Datetime (Date 2025 3 5) 0))]
     [Repo ''site'' ''2024-01-01T00:00:00Z'' False, Repo ''empty'' ''2024-02-01T00:00:00Z'' False] 1
     = (Inr [], 3)"
proof -
  let ?rs = "[Repo ''site'' ''2024-01-01T00:00:00Z'' False, Repo ''empty'' ''2024-02-01T00:00:00Z'' False]"
  let ?gr = "by_url (\<lambda>u. Inr (Response 200 ?rs)) :: (repo, nat) http_get"
  let ?gc = "by_url (\<lambda>u. if u = commits_url ''duckola'' ''empty'' then Inr (Response 409 [])
                   else Inr (Response 200 [])) :: (commit, nat) http_get"
  let ?now = "Datetime (Date 2025 3 5) 0"
  have 1: "?gr (Request (repos_url ''duckola'') (monthly_headers None) []) 0 = (Inr (Response 200 ?rs), 1)"
    by (simp add: by_url_def)
  have 2: "status_code (Response 200 ?rs) < 400 \<or> 600 \<le> status_code (Response 200 ?rs)"
    by simp
  have 3: "minus_days ?now (5 * 30) = Inr (Datetime (Date 2024 10 6) 0)"
    using window_150 by simp
  have 4: "fetched_commits ?gc (monthly_headers None) ''duckola''
          [(''since'', PTime (Datetime (Date 2024 10 6) 0)), (''until'', PTime ?now)]
          (json (Response 200 ?rs)) 1 = (Inr [], 3)"
    by (simp add: by_url_def commits_url_def)
  from no_commits_no_frame [where get_repos = ?gr and get_commits = ?gc and w = 0 and wa = 1
      and resp = "Response 200 ?rs" and now = ?now and months = 5 and wb = 3
      and start = "Datetime (Date 2024 10 6) 0" and username = "''duckola''" and secret = None
      and to_datetime = "Some :: string \<Rightarrow> string option"]
    1 2 3 4
  show ?thesis by simp
qed

section \<open>Repositories created this year\<close>

text \<open>
  Claim C9 asks for the count over the full listing. \<^verbatim>\<open>get_repos_created_this_year\<close> makes
  one request, for a page of 100, and counts within the answer: for an account with 101
  repositories, all created in 2025, it returns 100.
\<close>

theorem first_page_only:
  "get_repos_created_this_year
     (paged_repos (replicate 101 (Repo ''site'' ''2025-01-05T00:00:00Z'' False)))
     None 2025 ''duckola'' 0 = (Inr 100, 1) \<and>
   length (filter (\<lambda>r. startswith (created_at r) (dec 2025))
     (replicate 101 (Repo ''site'' ''2025-01-05T00:00:00Z'' False))) = 101"
  by (simp add: get_repos_created_this_year_def paged_repos_def per_page_of_def page_of_def
      repos_url_def year_headers_def startswith_def dec_2025)

text \<open>
  For an account of at most 100 repositories the one page is the whole listing, and the
  function counts over all of it; and for a four-digit year and a \<^verbatim>\<open>created_at\<close> that
  begins with an ISO date, \<^verbatim>\<open>startswith(str(year))\<close> holds exactly of the dates of that year.
\<close>

lemma four: "(4::nat) = Suc (Suc (Suc (Suc 0)))"
  by simp

lemma dec_four_digits:
  assumes "1000 \<le> n" "n < 10000"
  shows "dec n = digs 4 n"
proof -
  have a: "\<not> n < 10" "\<not> n div 10 < 10" "\<not> n div 10 div 10 < 10" "n div 10 div 10 div 10 < 10"
    using assms by (simp_all add: div_less_iff_less_mult less_eq_div_iff_mult_less_eq)
  have "dec n = [digit_char (n div 10 div 10 div 10), digit_char (n div 10 div 10 mod 10),
                 digit_char (n div 10 mod 10), digit_char (n mod 10)]"
    using a by (simp add: dec.simps [of n] dec.simps [of "n div 10"] dec.simps [of "n div 10 div 10"]
        dec.simps [of "n div 10 div 10 div 10"])
  moreover have "digs 4 n = [digit_char (n div 10 div 10 div 10 mod 10), digit_char (n div 10 div 10 mod 10),
                 digit_char (n div 10 mod 10), digit_char (n mod 10)]"
    unfolding four by simp
  ultimately show ?thesis using a(4) by simp
qed

lemma startswith_year:
  assumes "small_date d" "1000 \<le> yr" "yr < 10000"
  shows "startswith (date_str d @ rest) (dec yr) \<longleftrightarrow> year d = yr"
proof -
  have "take 4 (date_str d @ rest) = digs 4 (year d)"
    using assms(1) by (simp add: date_str_digs length_digs)
  moreover have "length (dec yr) = 4" "dec yr = digs 4 yr"
    using assms(2,3) by (simp_all add: dec_four_digits length_digs)
  moreover have "(digs 4 (year d) = digs 4 yr) = (year d = yr)"
    using assms by (intro digs_eq) (simp_all add: small_date_def)
  ultimately show ?thesis by (simp add: startswith_def)
qed

lemma created_this_year_one_page:
  assumes "length rs \<le> 100"
  shows "get_repos_created_this_year (paged_repos rs) secret yr user n =
         (Inr (length (filter (\<lambda>r. startswith (created_at r) (dec yr)) rs)), Suc n)"
  using assms
  by (simp add: get_repos_created_this_year_def paged_repos_def per_page_of_def page_of_def
      repos_url_def)

end
